theory Spec2Isabelle
  imports Complex_Main
begin

section \<open>Data model of \<open>MultiGridEnv\<close> (DQN/minigrid/environment.py)\<close>

text \<open>
  Coordinates are pairs of Python integers. The four cardinal intents are the members of
  \<open>utils.Actions\<close> that \<open>step\<close> compares against (utils.py is not among the sources; the
  interface names exactly these four).
\<close>

type_synonym pos = "int \<times> int"

datatype action = up | down | left | right

datatype error = BoundsError | IndexError | ValueError | ZeroDivisionError

text \<open>
  World objects. A goal placed in the grid is the same Python object as the one kept in
  \<open>self.goals\<close>, so the grid cell holds a reference (the index into the goal list) and the
  mutable fields live in the list. Obstacles and walls have no mutable state.
\<close>

datatype cell = Goal nat | Obstacle | Wall

record goal =
  g_pos :: pos
  collected :: bool
  color :: string

record agent =
  init_pos :: pos
  cur_pos :: pos
  direction :: int
  a_goals :: "nat list"
  a_obs :: "int list"

text \<open>
  Modelled from the spec: the class \<open>Grid\<close> (minigrid/grid.py) is not among the sources.
  It is two parallel maps from coordinates to occupants, one for the static content and
  one for the agent standing there (an index into the agent list); access outside the grid
  fails with a BoundsError.
\<close>

record grid =
  g_width :: int
  g_height :: int
  content :: "pos \<rightharpoonup> cell"
  occupant :: "pos \<rightharpoonup> nat"

definition in_bounds :: "grid \<Rightarrow> pos \<Rightarrow> bool" where
  "in_bounds g p \<longleftrightarrow> 0 \<le> fst p \<and> fst p < g_width g \<and> 0 \<le> snd p \<and> snd p < g_height g"

definition grid_get :: "grid \<Rightarrow> pos \<Rightarrow> error + cell option" where
  "grid_get g p = (if in_bounds g p then Inr (content g p) else Inl BoundsError)"

definition grid_get_agent :: "grid \<Rightarrow> pos \<Rightarrow> error + nat option" where
  "grid_get_agent g p = (if in_bounds g p then Inr (occupant g p) else Inl BoundsError)"

definition grid_set :: "grid \<Rightarrow> pos \<Rightarrow> cell option \<Rightarrow> error + grid" where
  "grid_set g p c =
     (if in_bounds g p then Inr (g\<lparr>content := (content g)(p := c)\<rparr>) else Inl BoundsError)"

definition grid_set_agent :: "grid \<Rightarrow> pos \<Rightarrow> nat option \<Rightarrow> error + grid" where
  "grid_set_agent g p a =
     (if in_bounds g p then Inr (g\<lparr>occupant := (occupant g)(p := a)\<rparr>) else Inl BoundsError)"

text \<open>The fields of \<open>MultiGridEnv\<close> that the simulation core reads or writes.\<close>

record env =
  agents :: "agent list"
  goals :: "goal list"
  obstacles :: "pos list"
  gamma :: real
  step_count :: nat
  num_collected :: nat
  width :: int
  height :: int
  num_goals :: int
  max_steps :: int
  num_obstacles :: int
  max_edge_dist :: real
  grid :: grid
  reward_goal :: real
  penalty_obstacle :: real
  penalty_goal :: real
  penalty_invalid_move :: real
  total_cells :: int
  seen_cells :: "bool list list"

section \<open>Reward shaping\<close>

text \<open>\<open>_reward\<close>: \<open>reward * (self.gamma ** self.step_count)\<close>, over the reals.\<close>

definition reward_shaped :: "env \<Rightarrow> real \<Rightarrow> real" where
  "reward_shaped e r = r * gamma e ^ step_count e"

section \<open>Move resolution\<close>

text \<open>The target cell of an intent (the \<open>if\<close>/\<open>elif\<close> chain at the head of the loop body).\<close>

definition new_pos :: "pos \<Rightarrow> action \<Rightarrow> pos" where
  "new_pos p a =
     (case a of
        up \<Rightarrow> (fst p, snd p - 1)
      | down \<Rightarrow> (fst p, snd p + 1)
      | left \<Rightarrow> (fst p - 1, snd p)
      | right \<Rightarrow> (fst p + 1, snd p))"

text \<open>
  Modelled from the spec: the \<open>can_overlap\<close> methods of the world objects
  (minigrid/world.py) are not among the sources. The data model gives the capability flag
  as true for a goal and false for an obstacle and a wall. The move resolver below takes
  the flag as a parameter \<open>co\<close>; this is the instance the spec describes.
\<close>

fun can_overlap :: "cell \<Rightarrow> bool" where
  "can_overlap (Goal k) = True"
| "can_overlap Obstacle = False"
| "can_overlap Wall = False"

text \<open>
  \<open>_handle_overlap\<close>: the reward by the kind of the object stood on, then the agent is
  written into the occupancy map at the target, its old cell is cleared and its position
  updated. Returns the reward and the new environment.
\<close>

definition overlap_reward :: "env \<Rightarrow> cell \<Rightarrow> error + (real \<times> env)" where
  "overlap_reward e fwd_cell =
     (case fwd_cell of
        Goal k \<Rightarrow>
          if \<not> collected (goals e ! k)
          then Inr (reward_shaped e (reward_goal e),
                    e\<lparr>goals := (goals e)[k := (goals e ! k)\<lparr>collected := True, color := ''grey''\<rparr>],
                      num_collected := num_collected e + 1\<rparr>)
          else Inr (reward_shaped e (penalty_goal e), e)
      | Obstacle \<Rightarrow> Inr (reward_shaped e (penalty_obstacle e), e)
      | Wall \<Rightarrow> Inl ValueError)"

definition move_to :: "env \<Rightarrow> nat \<Rightarrow> pos \<Rightarrow> error + env" where
  "move_to e i p =
     (case grid_set_agent (grid e) p (Some i) of
        Inl err \<Rightarrow> Inl err
      | Inr g1 \<Rightarrow>
          (case grid_set_agent g1 (cur_pos (agents e ! i)) None of
             Inl err \<Rightarrow> Inl err
           | Inr g2 \<Rightarrow>
               Inr (e\<lparr>grid := g2, agents := (agents e)[i := (agents e ! i)\<lparr>cur_pos := p\<rparr>]\<rparr>)))"

definition handle_overlap :: "env \<Rightarrow> nat \<Rightarrow> pos \<Rightarrow> cell \<Rightarrow> error + (real \<times> env)" where
  "handle_overlap e i fwd_pos fwd_cell =
     (case overlap_reward e fwd_cell of
        Inl err \<Rightarrow> Inl err
      | Inr (reward, e1) \<Rightarrow>
          (case move_to e1 i fwd_pos of
             Inl err \<Rightarrow> Inl err
           | Inr e2 \<Rightarrow> Inr (reward, e2)))"

text \<open>The per-agent done-condition tested at the end of each loop iteration.\<close>

definition done_cond :: "env \<Rightarrow> bool" where
  "done_cond e \<longleftrightarrow> max_steps e \<le> int (step_count e) \<or> num_goals e \<le> int (num_collected e)"

text \<open>
  One iteration of the loop of \<open>step\<close> over \<open>enumerate(actions)\<close>, for agent \<open>i\<close>: the
  state is the environment with the reward and done arrays of the tick.
\<close>

type_synonym tick = "env \<times> real list \<times> bool list"

definition resolve :: "(cell \<Rightarrow> bool) \<Rightarrow> nat \<Rightarrow> action \<Rightarrow> env \<Rightarrow> real list \<Rightarrow> error + (env \<times> real list)" where
  "resolve co i act e rewards =
     (let np = new_pos (cur_pos (agents e ! i)) act in
      case grid_get (grid e) np of
        Inl err \<Rightarrow> Inl err
      | Inr cell \<Rightarrow>
          (case grid_get_agent (grid e) np of
             Inl err \<Rightarrow> Inl err
           | Inr ag \<Rightarrow>
               if cell = None \<and> ag = None \<and> 0 \<le> fst np \<and> fst np < width e
                  \<and> 0 \<le> snd np \<and> snd np < height e
               then (case move_to e i np of
                       Inl err \<Rightarrow> Inl err
                     | Inr e1 \<Rightarrow> Inr (e1, rewards))
               else (case cell of
                       Some c \<Rightarrow>
                         if co c
                         then (case handle_overlap e i np c of
                                 Inl err \<Rightarrow> Inl err
                               | Inr (r, e1) \<Rightarrow> Inr (e1, rewards[i := r]))
                         else Inr (e, rewards[i := reward_shaped e (- 5)])
                     | None \<Rightarrow> Inr (e, rewards[i := reward_shaped e (- 5)]))))"

definition step_agent :: "(cell \<Rightarrow> bool) \<Rightarrow> nat \<Rightarrow> action \<Rightarrow> tick \<Rightarrow> error + tick" where
  "step_agent co i act s =
     (case s of (e, rewards, dones) \<Rightarrow>
        if length (agents e) \<le> i then Inl IndexError
        else (case resolve co i act e rewards of
                Inl err \<Rightarrow> Inl err
              | Inr (e1, rewards1) \<Rightarrow>
                  Inr (e1, rewards1, if done_cond e1 then dones[i := True] else dones)))"

fun move_loop :: "(cell \<Rightarrow> bool) \<Rightarrow> nat \<Rightarrow> action list \<Rightarrow> tick \<Rightarrow> error + tick" where
  "move_loop co i [] s = Inr s"
| "move_loop co i (a # as) s =
     (case step_agent co i a s of
        Inl err \<Rightarrow> Inl err
      | Inr s1 \<Rightarrow> move_loop co (Suc i) as s1)"

section \<open>Observation builder\<close>

definition euclid_dist :: "pos \<Rightarrow> pos \<Rightarrow> real" where
  "euclid_dist p q = sqrt (real_of_int ((fst p - fst q)\<^sup>2 + (snd p - snd q)\<^sup>2))"

text \<open>
  The goals appended to \<open>goals_in_fov\<close>, as (goal, distance) pairs in the order of the goal
  list, then sorted by distance (Python's sort is stable, as \<open>sort_key\<close> is) and cut to 3.
\<close>

definition goal_dist :: "env \<Rightarrow> agent \<Rightarrow> nat \<Rightarrow> real" where
  "goal_dist e a k = euclid_dist (cur_pos a) (g_pos (goals e ! k))"

definition in_fov :: "env \<Rightarrow> agent \<Rightarrow> nat \<Rightarrow> bool" where
  "in_fov e a k \<longleftrightarrow> goal_dist e a k \<le> max_edge_dist e \<and> \<not> collected (goals e ! k)"

definition goals_in_fov :: "env \<Rightarrow> agent \<Rightarrow> nat list" where
  "goals_in_fov e a = take 3 (sort_key (goal_dist e a) (filter (in_fov e a) [0..<length (goals e)]))"

definition goal_triple :: "goal \<Rightarrow> int list" where
  "goal_triple g = [fst (g_pos g), snd (g_pos g), (if collected g then 1 else 0)]"

definition get_obs_vec :: "env \<Rightarrow> agent \<Rightarrow> int list" where
  "get_obs_vec e a =
     [fst (cur_pos a), snd (cur_pos a)]
     @ concat (map (\<lambda>k. goal_triple (goals e ! k)) (goals_in_fov e a))
     @ concat (replicate (3 - length (goals_in_fov e a)) [0, 0, 0])"

text \<open>\<open>_get_obs\<close> also caches the goals in view and the vector on the agent.\<close>

definition get_obs :: "env \<Rightarrow> agent \<Rightarrow> int list \<times> agent" where
  "get_obs e a = (get_obs_vec e a, a\<lparr>a_goals := goals_in_fov e a, a_obs := get_obs_vec e a\<rparr>)"

section \<open>Coverage tracker\<close>

text \<open>
  The innermost loop of \<open>_update_seen_cells\<close> for the cell \<open>(i, j)\<close>: the first agent within
  \<open>max_edge_dist\<close> marks entry \<open>(i - 1, j - 1)\<close> of the matrix and ends the loop.
\<close>

fun mark_cell :: "real \<Rightarrow> nat \<Rightarrow> nat \<Rightarrow> agent list \<Rightarrow> bool list list \<Rightarrow> bool list list" where
  "mark_cell m i j [] seen = seen"
| "mark_cell m i j (a # as) seen =
     (if euclid_dist (int i, int j) (cur_pos a) \<le> m
      then seen[i - 1 := (seen ! (i - 1))[j - 1 := True]]
      else mark_cell m i j as seen)"

definition update_seen_cells :: "env \<Rightarrow> env" where
  "update_seen_cells e =
     e\<lparr>seen_cells :=
         fold (\<lambda>i seen. fold (\<lambda>j seen1. mark_cell (max_edge_dist e) i j (agents e) seen1)
                              [1..<nat (height e - 1)] seen)
              [1..<nat (width e - 1)] (seen_cells e)\<rparr>"

definition count_seen :: "bool list list \<Rightarrow> nat" where
  "count_seen seen = sum_list (map (\<lambda>row. length (filter (\<lambda>b. b) row)) seen)"

definition calculate_seen_percentage :: "env \<Rightarrow> real" where
  "calculate_seen_percentage e = real (count_seen (seen_cells e)) / real_of_int (total_cells e) * 100"

text \<open>
  The coverage fields as \<open>__init__\<close> creates them: \<open>total_cells\<close> and a matrix of
  \<open>False\<close> of shape \<open>(width - 2, height - 2)\<close> (\<open>np.zeros\<close> raises a ValueError for a
  negative dimension). \<open>reset\<close> clears the matrix in place with \<open>fill(False)\<close>.
\<close>

definition init_coverage :: "int \<Rightarrow> int \<Rightarrow> error + (int \<times> bool list list)" where
  "init_coverage w h =
     (if w - 2 < 0 \<or> h - 2 < 0 then Inl ValueError
      else Inr ((w - 2) * (h - 2), replicate (nat (w - 2)) (replicate (nat (h - 2)) False)))"

definition reset_coverage :: "env \<Rightarrow> env" where
  "reset_coverage e = e\<lparr>seen_cells := map (map (\<lambda>b. False)) (seen_cells e)\<rparr>"

section \<open>Episode controller\<close>

datatype info = InfoDone nat real real | InfoRunning real

definition sync_dones :: "bool list \<Rightarrow> bool list" where
  "sync_dones dones = map (\<lambda>d. if list_ex (\<lambda>b. b) dones then True else d) dones"

definition build_info :: "env \<Rightarrow> bool list \<Rightarrow> real \<Rightarrow> error + info" where
  "build_info e dones seen_percentage =
     (if list_ex (\<lambda>b. b) dones
      then (if num_goals e = 0 then Inl ZeroDivisionError
            else Inr (InfoDone (num_collected e)
                        (real (num_collected e) / real_of_int (num_goals e) * 100)
                        seen_percentage))
      else Inr (InfoRunning seen_percentage))"

definition step :: "(cell \<Rightarrow> bool) \<Rightarrow> env \<Rightarrow> action list
    \<Rightarrow> error + (int list list \<times> real list \<times> bool list \<times> info \<times> env)" where
  "step co e actions =
     (let n = length (agents e);
          e0 = e\<lparr>step_count := step_count e + 1\<rparr>
      in case move_loop co 0 actions (e0, replicate n 0, replicate n False) of
           Inl err \<Rightarrow> Inl err
         | Inr (e1, rewards, dones0) \<Rightarrow>
             (let dones = sync_dones dones0;
                  e2 = update_seen_cells e1;
                  seen_percentage = calculate_seen_percentage e2
              in case build_info e2 dones seen_percentage of
                   Inl err \<Rightarrow> Inl err
                 | Inr tick_info \<Rightarrow>
                     Inr (map (\<lambda>a. fst (get_obs e2 a)) (agents e2), rewards, dones, tick_info,
                          e2\<lparr>agents := map (\<lambda>a. snd (get_obs e2 a)) (agents e2)\<rparr>)))"

section \<open>Placement of goals and obstacles\<close>

text \<open>
  \<open>_place_object\<close> draws coordinates until the drawn cell has no static content. The
  random generator is a parameter: \<open>rnd n\<close> is the \<open>n\<close>-th pair that \<open>_rand_pos\<close> returns.
  \<open>_rand_pos(1, width - 2, 1, height - 2)\<close> draws each coordinate with
  \<open>integers(low, high)\<close>, whose upper bound is exclusive and which raises a ValueError
  when \<open>low >= high\<close>. The loop has no bound on the number of draws, so the function is
  partial: \<open>None\<close> is the run that never leaves the loop.
\<close>

text \<open>
  Modelled from the spec: the constructors \<open>Goal()\<close> and \<open>Obstacle()\<close> (minigrid/world.py)
  are not among the sources. A fresh goal is not collected and carries the colour that
  \<open>encode\<close> tests for a fresh goal; \<open>_handle_overlap\<close> recolours it on collection.
\<close>

datatype obj = NewGoal | NewObstacle

definition in_sample_range :: "env \<Rightarrow> pos \<Rightarrow> bool" where
  "in_sample_range e p \<longleftrightarrow> 1 \<le> fst p \<and> fst p < width e - 2 \<and> 1 \<le> snd p \<and> snd p < height e - 2"

definition place_at :: "env \<Rightarrow> pos \<Rightarrow> obj \<Rightarrow> error + env" where
  "place_at e p ob =
     (case ob of
        NewGoal \<Rightarrow>
          (case grid_set (grid e) p (Some (Goal (length (goals e)))) of
             Inl err \<Rightarrow> Inl err
           | Inr g \<Rightarrow>
               Inr (e\<lparr>grid := g,
                      goals := goals e @ [\<lparr>g_pos = p, collected = False, color = ''green''\<rparr>]\<rparr>))
      | NewObstacle \<Rightarrow>
          (case grid_set (grid e) p (Some Obstacle) of
             Inl err \<Rightarrow> Inl err
           | Inr g \<Rightarrow> Inr (e\<lparr>grid := g, obstacles := obstacles e @ [p]\<rparr>)))"

partial_function (option) place_object :: "(nat \<Rightarrow> pos) \<Rightarrow> obj \<Rightarrow> env \<Rightarrow> nat \<Rightarrow> (error + env \<times> nat) option" where
  "place_object rnd ob e n =
     (if width e - 2 \<le> 1 \<or> height e - 2 \<le> 1 then Some (Inl ValueError)
      else (case grid_get (grid e) (rnd n) of
              Inl err \<Rightarrow> Some (Inl err)
            | Inr c \<Rightarrow>
                if c = None
                then (case place_at e (rnd n) ob of
                        Inl err \<Rightarrow> Some (Inl err)
                      | Inr e1 \<Rightarrow> Some (Inr (e1, Suc n)))
                else place_object rnd ob e (Suc n)))"

section \<open>A small episode\<close>

text \<open>
  A 5 x 5 grid (3 x 3 interior inside the wall perimeter) with one goal in the centre, one
  obstacle in the top-left interior corner and two agents left and right of the goal, as
  it stands after a reset and one tick in which both agents moved up from the bottom
  corners.
\<close>

definition demo_grid :: grid where
  "demo_grid =
     \<lparr>g_width = 5, g_height = 5,
      content = (\<lambda>p. if fst p = 0 \<or> fst p = 4 \<or> snd p = 0 \<or> snd p = 4 then Some Wall
                      else if p = (2, 2) then Some (Goal 0)
                      else if p = (1, 1) then Some Obstacle
                      else None),
      occupant = [(1, 2) \<mapsto> 0, (3, 2) \<mapsto> 1]\<rparr>"

definition demo_agent :: "pos \<Rightarrow> pos \<Rightarrow> agent" where
  "demo_agent p0 p = \<lparr>init_pos = p0, cur_pos = p, direction = 3, a_goals = [], a_obs = []\<rparr>"

definition demo_env :: env where
  "demo_env =
     \<lparr>agents = [demo_agent (1, 3) (1, 2), demo_agent (3, 3) (3, 2)],
      goals = [\<lparr>g_pos = (2, 2), collected = False, color = ''green''\<rparr>],
      obstacles = [(1, 1)],
      gamma = 1 / 2, step_count = 1, num_collected = 0,
      width = 5, height = 5, num_goals = 1, max_steps = 10, num_obstacles = 1,
      max_edge_dist = 1, grid = demo_grid,
      reward_goal = 10, penalty_obstacle = - 2, penalty_goal = - 1, penalty_invalid_move = - 1,
      total_cells = 9,
      seen_cells = [[True, True, True], [False, True, False], [True, True, True]]\<rparr>"

text \<open>The random generator that always returns the same pair.\<close>

definition const_rnd :: "pos \<Rightarrow> nat \<Rightarrow> pos" where
  "const_rnd p n = p"

text \<open>The same episode after the goal has been collected.\<close>

definition demo_collected :: env where
  "demo_collected =
     demo_env\<lparr>goals := [\<lparr>g_pos = (2, 2), collected = True, color = ''grey''\<rparr>],
              num_collected := 1\<rparr>"

text \<open>
  The same grid with five goals, one of them collected, and a visibility radius of 3 that
  covers them all from the cell (1, 2).
\<close>

definition demo_goals :: env where
  "demo_goals =
     demo_env\<lparr>goals := [\<lparr>g_pos = (3, 3), collected = False, color = ''green''\<rparr>,
                        \<lparr>g_pos = (2, 2), collected = False, color = ''green''\<rparr>,
                        \<lparr>g_pos = (1, 3), collected = True, color = ''grey''\<rparr>,
                        \<lparr>g_pos = (2, 1), collected = False, color = ''green''\<rparr>,
                        \<lparr>g_pos = (1, 1), collected = False, color = ''green''\<rparr>],
              max_edge_dist := 3, num_goals := 5, num_collected := 1\<rparr>"

text \<open>
  The same grid with every interior cell holding an obstacle, and a generator whose first
  draw is the goal cell (2, 2) and whose later draws are the empty cell (2, 1).
\<close>

definition full_env :: env where
  "full_env =
     demo_env\<lparr>grid := demo_grid\<lparr>content :=
       (\<lambda>p. if fst p = 0 \<or> fst p = 4 \<or> snd p = 0 \<or> snd p = 4 then Some Wall
             else Some Obstacle)\<rparr>\<rparr>"

definition demo_rnd :: "nat \<Rightarrow> pos" where
  "demo_rnd n = (if n = 0 then (2, 2) else (2, 1))"

section \<open>Auxiliary notions for the statements\<close>

text \<open>
  What a loop iteration leaves alone: the configuration, the step counter and the coverage
  matrix stay as they are, and the collected counter does not decrease.
\<close>

definition same_config :: "env \<Rightarrow> env \<Rightarrow> bool" where
  "same_config e e1 \<longleftrightarrow>
     length (agents e1) = length (agents e) \<and> step_count e1 = step_count e
     \<and> max_steps e1 = max_steps e \<and> num_goals e1 = num_goals e
     \<and> width e1 = width e \<and> height e1 = height e \<and> total_cells e1 = total_cells e
     \<and> max_edge_dist e1 = max_edge_dist e \<and> seen_cells e1 = seen_cells e
     \<and> num_collected e \<le> num_collected e1"

text \<open>Projections of what \<open>step\<close> returns, for the concrete runs below.\<close>

definition tick_result ::
  "error + (int list list \<times> real list \<times> bool list \<times> info \<times> env)
   \<Rightarrow> error + (int list list \<times> real list \<times> bool list \<times> info \<times> pos list)" where
  "tick_result r =
     (case r of
        Inl err \<Rightarrow> Inl err
      | Inr (obs, rewards, dones, tick_info, e) \<Rightarrow>
          Inr (obs, rewards, dones, tick_info, map cur_pos (agents e)))"

definition tick_occupant ::
  "error + (int list list \<times> real list \<times> bool list \<times> info \<times> env) \<Rightarrow> pos \<Rightarrow> nat option" where
  "tick_occupant r p =
     (case r of
        Inl err \<Rightarrow> None
      | Inr (obs, rewards, dones, tick_info, e) \<Rightarrow> occupant (grid e) p)"

text \<open>
  The shape that \<open>__init__\<close> gives the coverage matrix, \<open>(width - 2)\<close> rows of
  \<open>(height - 2)\<close> entries, with \<open>total_cells\<close> their number. Entry \<open>(x, y)\<close> of the matrix
  stands for the interior cell \<open>(x + 1, y + 1)\<close>.
\<close>

definition seen_wf :: "env \<Rightarrow> bool" where
  "seen_wf e \<longleftrightarrow>
     map length (seen_cells e) = replicate (nat (width e - 2)) (nat (height e - 2))
     \<and> total_cells e = (width e - 2) * (height e - 2)"

text \<open>The cell \<open>(i, j)\<close> is within \<open>max_edge_dist\<close> of some agent.\<close>

definition in_view :: "env \<Rightarrow> nat \<Rightarrow> nat \<Rightarrow> bool" where
  "in_view e i j \<longleftrightarrow>
     list_ex (\<lambda>a. euclid_dist (int i, int j) (cur_pos a) \<le> max_edge_dist e) (agents e)"

text \<open>Reading the matrix with its bounds.\<close>

definition seen_at :: "bool list list \<Rightarrow> nat \<Rightarrow> nat \<Rightarrow> bool" where
  "seen_at s x y \<longleftrightarrow> x < length s \<and> y < length (s ! x) \<and> s ! x ! y"

definition in_matrix :: "bool list list \<Rightarrow> nat \<Rightarrow> nat \<Rightarrow> bool" where
  "in_matrix s x y \<longleftrightarrow> x < length s \<and> y < length (s ! x)"

section \<open>Properties of the reward shaping\<close>





section \<open>Evaluation of concrete ticks\<close>

lemma euclid_dist_le_iff:
  "0 \<le> m \<Longrightarrow> euclid_dist p q \<le> m \<longleftrightarrow> real_of_int ((fst p - fst q)\<^sup>2 + (snd p - snd q)\<^sup>2) \<le> m\<^sup>2"
  unfolding euclid_dist_def
  by (metis abs_of_nonneg real_sqrt_abs real_sqrt_le_iff)

lemmas move_defs = step_agent_def resolve_def new_pos_def grid_get_def grid_get_agent_def
  grid_set_agent_def in_bounds_def handle_overlap_def overlap_reward_def move_to_def
  done_cond_def reward_shaped_def Let_def

lemmas obs_defs = get_obs_def get_obs_vec_def goals_in_fov_def in_fov_def goal_dist_def
  goal_triple_def euclid_dist_le_iff

lemmas step_defs = step_def sync_dones_def build_info_def update_seen_cells_def
  calculate_seen_percentage_def count_seen_def tick_result_def tick_occupant_def

lemmas demo_defs = demo_env_def demo_grid_def demo_agent_def
  upt_conv_Cons eval_nat_numeral power2_eq_square

lemma demo_tick_collide:
  "tick_result (step can_overlap demo_env [right, left]) =
     Inr ([[2, 2, 0, 0, 0, 0, 0, 0, 0, 0, 0], [2, 2, 0, 0, 0, 0, 0, 0, 0, 0, 0]],
          [5 / 2, - 1 / 4], [True, True], InfoDone 1 100 100, [(2, 2), (2, 2)])"
  by (simp add: step_defs move_defs obs_defs demo_defs)

lemma demo_tick_collide_occupant:
  "tick_occupant (step can_overlap demo_env [right, left]) (2, 2) = Some 1"
  by (simp add: step_defs move_defs obs_defs demo_defs)

lemma demo_tick_walls:
  "tick_result (step can_overlap demo_env [left, right]) =
     Inr ([[1, 2, 2, 2, 0, 0, 0, 0, 0, 0, 0], [3, 2, 2, 2, 0, 0, 0, 0, 0, 0, 0]],
          [- 5 / 4, - 5 / 4], [False, False], InfoRunning (700 / 9), [(1, 2), (3, 2)])"
  by (simp add: step_defs move_defs obs_defs demo_defs)

lemma demo_tick_up:
  "tick_result (step can_overlap demo_env [up, up]) =
     Inr ([[1, 2, 2, 2, 0, 0, 0, 0, 0, 0, 0], [3, 1, 0, 0, 0, 0, 0, 0, 0, 0, 0]],
          [- 5 / 4, 0], [False, False], InfoRunning (800 / 9), [(1, 2), (3, 1)])"
  by (simp add: step_defs move_defs obs_defs demo_defs)

section \<open>What the move loop preserves\<close>

lemma same_config_refl: "same_config e e"
  by (simp add: same_config_def)

lemma same_config_trans: "same_config e e1 \<Longrightarrow> same_config e1 e2 \<Longrightarrow> same_config e e2"
  by (auto simp: same_config_def)

lemma move_to_config: "move_to e i p = Inr e1 \<Longrightarrow> same_config e e1"
  by (auto simp: move_to_def grid_set_agent_def same_config_def split: if_splits)

lemma overlap_reward_config: "overlap_reward e c = Inr (r, e1) \<Longrightarrow> same_config e e1"
  by (cases c) (auto simp: overlap_reward_def same_config_def split: if_splits)

lemma handle_overlap_config: "handle_overlap e i p c = Inr (r, e1) \<Longrightarrow> same_config e e1"
proof -
  assume a: "handle_overlap e i p c = Inr (r, e1)"
  then obtain e0 where o: "overlap_reward e c = Inr (r, e0)" and m: "move_to e0 i p = Inr e1"
    by (auto simp: handle_overlap_def split: sum.splits prod.splits)
  show ?thesis
    using overlap_reward_config [OF o] move_to_config [OF m] by (rule same_config_trans)
qed

lemma resolve_config:
  "resolve co i act e rewards = Inr (e1, rewards1) \<Longrightarrow>
     same_config e e1 \<and> length rewards1 = length rewards"
  unfolding resolve_def Let_def
  by (simp split: sum.splits if_splits option.splits prod.splits)
     (auto simp: same_config_refl dest: handle_overlap_config move_to_config)

lemma step_agent_config:
  "step_agent co i act (e, rewards, dones) = Inr (e1, rewards1, dones1) \<Longrightarrow>
     same_config e e1 \<and> length rewards1 = length rewards \<and> length dones1 = length dones"
  by (auto simp: step_agent_def split: sum.splits if_splits prod.splits dest: resolve_config)

lemma move_loop_config:
  "move_loop co i acts (e, rewards, dones) = Inr (e1, rewards1, dones1) \<Longrightarrow>
     same_config e e1 \<and> length rewards1 = length rewards \<and> length dones1 = length dones"
proof (induction acts arbitrary: i e rewards dones)
  case Nil
  then show ?case by (simp add: same_config_refl)
next
  case (Cons a acts)
  from Cons.prems obtain e2 r2 d2 where
    s: "step_agent co i a (e, rewards, dones) = Inr (e2, r2, d2)"
    and l: "move_loop co (Suc i) acts (e2, r2, d2) = Inr (e1, rewards1, dones1)"
    by (auto split: sum.splits)
  from step_agent_config [OF s] Cons.IH [OF l] show ?case
    using same_config_trans [of e e2 e1] by simp
qed

lemma done_cond_mono: "same_config e e1 \<Longrightarrow> done_cond e \<Longrightarrow> done_cond e1"
  by (auto simp: same_config_def done_cond_def)

lemma move_loop_dones:
  "move_loop co i acts (e, rewards, dones) = Inr (e1, rewards1, dones1) \<Longrightarrow>
   length dones = length (agents e) \<Longrightarrow>
     list_ex (\<lambda>b. b) dones1 \<longleftrightarrow> list_ex (\<lambda>b. b) dones \<or> (acts \<noteq> [] \<and> done_cond e1)"
proof (induction acts arbitrary: i e rewards dones)
  case Nil
  then show ?case by simp
next
  case (Cons a acts)
  from Cons.prems obtain e2 r2 d2 where
    s: "step_agent co i a (e, rewards, dones) = Inr (e2, r2, d2)"
    and l: "move_loop co (Suc i) acts (e2, r2, d2) = Inr (e1, rewards1, dones1)"
    by (auto split: sum.splits)
  from step_agent_config [OF s] have c2: "same_config e e2" and ld: "length d2 = length dones"
    by simp_all
  then have len2: "length d2 = length (agents e2)"
    using Cons.prems(2) by (simp add: same_config_def)
  have i: "i < length (agents e)"
  proof (rule ccontr)
    assume "\<not> i < length (agents e)"
    then show False using s by (simp add: step_agent_def)
  qed
  have d2: "d2 = (if done_cond e2 then dones[i := True] else dones)"
    using s i by (simp add: step_agent_def split: sum.splits prod.splits) force
  from move_loop_config [OF l] have c1: "same_config e2 e1" by simp
  have ih: "list_ex (\<lambda>b. b) dones1 \<longleftrightarrow> list_ex (\<lambda>b. b) d2 \<or> (acts \<noteq> [] \<and> done_cond e1)"
    by (rule Cons.IH [OF l len2])
  show ?case
  proof (cases "done_cond e2")
    case True
    then have "done_cond e1" using c1 by (rule done_cond_mono [rotated])
    moreover have "True \<in> set (dones[i := True])"
      using i Cons.prems(2) by (simp add: set_update_memI)
    then have "list_ex (\<lambda>b. b) d2"
      using True d2 unfolding list_ex_iff by auto
    ultimately show ?thesis using ih by simp
  next
    case False
    then have "d2 = dones" using d2 by simp
    moreover have "acts = [] \<Longrightarrow> e1 = e2" using l by simp
    ultimately show ?thesis using ih False by auto
  qed
qed

lemma sync_dones_eq: "sync_dones dones = replicate (length dones) (list_ex (\<lambda>b. b) dones)"
proof (cases "list_ex (\<lambda>b. b) dones")
  case True
  then show ?thesis by (simp add: sync_dones_def map_replicate_const)
next
  case False
  then have "\<forall>d\<in>set dones. d = False" by (simp add: list_ex_iff)
  then have "replicate (length dones) False = dones" by (rule replicate_length_same)
  then show ?thesis using False by (simp add: sync_dones_def)
qed

lemma list_ex_replicate_False: "\<not> list_ex (\<lambda>b. b) (replicate n False)"
  by (simp add: list_ex_iff)

section \<open>Termination flags\<close>

text \<open>
  C4: when \<open>step\<close> is called with one action per agent and returns, every entry of the
  returned \<open>dones\<close> vector is the done-condition (step cap reached or goal target reached)
  of the tick: all true if it holds, all false otherwise. The collected counter only grows
  within the tick and the step counter is fixed, so the condition holds for some agent's
  check exactly when it holds for the state the tick ends in.
\<close>

theorem dones_synchronized:
  assumes "step co e actions = Inr (obs, rewards, dones, tick_info, e')"
    and "length actions = length (agents e)"
  shows "dones = replicate (length (agents e)) (done_cond e')"
proof -
  let ?e0 = "e\<lparr>step_count := step_count e + 1\<rparr>"
  let ?n = "length (agents e)"
  from assms(1) obtain e1 r1 d1 where
    l: "move_loop co 0 actions (?e0, replicate ?n 0, replicate ?n False) = Inr (e1, r1, d1)"
    by (auto simp: step_def Let_def split: sum.splits)
  from assms(1) l have d: "dones = sync_dones d1"
    and e': "e' = (update_seen_cells e1)\<lparr>agents := map (\<lambda>a. snd (get_obs (update_seen_cells e1) a)) (agents (update_seen_cells e1))\<rparr>"
    by (auto simp: step_def Let_def split: sum.splits)
  have dc: "done_cond e' = done_cond e1"
    by (simp add: e' done_cond_def update_seen_cells_def)
  from move_loop_config [OF l] have len: "length d1 = ?n" by simp
  have "list_ex (\<lambda>b. b) d1 \<longleftrightarrow> actions \<noteq> [] \<and> done_cond e1"
    using move_loop_dones [OF l] list_ex_replicate_False by simp
  then show ?thesis
    using assms(2) len by (cases "actions = []") (auto simp: d dc sync_dones_eq)
qed


theorem dones_synchronized_witness:
  "\<exists>obs rewards tick_info e'.
     step can_overlap demo_env [right, left] = Inr (obs, rewards, [True, True], tick_info, e')
     \<and> length [right, left] = length (agents demo_env) \<and> done_cond e'"
proof -
  obtain obs rewards dones tick_info e' where
    s: "step can_overlap demo_env [right, left] = Inr (obs, rewards, dones, tick_info, e')"
    using demo_tick_collide
    by (cases "step can_overlap demo_env [right, left]") (auto simp: tick_result_def)
  have l: "length [right, left] = length (agents demo_env)"
    by (simp add: demo_env_def)
  have d: "dones = [True, True]"
    using demo_tick_collide s by (simp add: tick_result_def)
  from dones_synchronized [OF s l] d have "done_cond e'"
    by (simp add: demo_env_def)
  with s l d show ?thesis by blast
qed

text \<open>
  C10: with \<open>num_goals = 0\<close> and at least one action, \<open>step\<close> never returns a result:
  unless the move loop itself raises, the done-condition holds at the first check
  (\<open>0 >= 0\<close>) and building the info divides by \<open>num_goals\<close>, a ZeroDivisionError.
\<close>

theorem step_zero_goals_fails:
  assumes "num_goals e = 0" and "actions \<noteq> []"
  shows "step co e actions =
     (case move_loop co 0 actions (e\<lparr>step_count := step_count e + 1\<rparr>,
             replicate (length (agents e)) 0, replicate (length (agents e)) False) of
        Inl err \<Rightarrow> Inl err
      | Inr s \<Rightarrow> Inl ZeroDivisionError)"
proof (cases "move_loop co 0 actions (e\<lparr>step_count := step_count e + 1\<rparr>,
             replicate (length (agents e)) 0, replicate (length (agents e)) False)")
  case (Inl err)
  then show ?thesis by (simp add: step_def Let_def)
next
  case (Inr s)
  obtain e1 r1 d1 where s: "s = (e1, r1, d1)" by (cases s)
  note l = Inr [unfolded s]
  from move_loop_config [OF l] have c: "same_config (e\<lparr>step_count := step_count e + 1\<rparr>) e1"
    by simp
  then have ng: "num_goals e1 = 0" using assms(1) by (simp add: same_config_def)
  then have dc: "done_cond e1" by (simp add: done_cond_def)
  have "list_ex (\<lambda>b. b) d1"
    using move_loop_dones [OF l] assms(2) dc by simp
  then have "list_ex (\<lambda>b. b) (sync_dones d1)"
    by (auto simp: sync_dones_eq list_ex_iff)
  then have "build_info (update_seen_cells e1) (sync_dones d1) x = Inl ZeroDivisionError" for x
    using ng by (simp add: build_info_def update_seen_cells_def)
  then show ?thesis
    using l by (simp add: step_def Let_def s)
qed

theorem step_zero_goals_fails_witness:
  "num_goals (demo_env\<lparr>num_goals := 0\<rparr>) = 0 \<and> [up, up] \<noteq> []
   \<and> step can_overlap (demo_env\<lparr>num_goals := 0\<rparr>) [up, up] = Inl ZeroDivisionError"
  using step_zero_goals_fails [of "demo_env\<lparr>num_goals := 0\<rparr>" "[up, up]" can_overlap]
  by (simp add: move_defs demo_defs)


section \<open>Occupancy\<close>

text \<open>
  C1 on the small episode: agent 0 moves right onto the goal cell (2, 2) and collects the
  goal; in the same tick agent 1 moves left onto the same cell. The overlap branch does
  not look at the occupancy map, so after the tick both agents stand on (2, 2) and the map
  holds agent 1 there.
\<close>

theorem overlap_ignores_occupant:
  "tick_result (step can_overlap demo_env [right, left]) =
     Inr ([[2, 2, 0, 0, 0, 0, 0, 0, 0, 0, 0], [2, 2, 0, 0, 0, 0, 0, 0, 0, 0, 0]],
          [5 / 2, - 1 / 4], [True, True], InfoDone 1 100 100, [(2, 2), (2, 2)])
   \<and> tick_occupant (step can_overlap demo_env [right, left]) (2, 2) = Some 1"
  using demo_tick_collide demo_tick_collide_occupant by simp

section \<open>Invalid moves\<close>

text \<open>
  C3 on the small episode, where \<open>penalty_invalid_move\<close> is -1 and the decay factor 1/2:
  both agents walk into the wall at step count 2. They stay where they are, and the
  reward is -5 * (1/2)^2 = -5/4, not the shaped configured penalty -1 * (1/2)^2 = -1/4.
\<close>

theorem invalid_move_fixed_penalty:
  "tick_result (step can_overlap demo_env [left, right]) =
     Inr ([[1, 2, 2, 2, 0, 0, 0, 0, 0, 0, 0], [3, 2, 2, 2, 0, 0, 0, 0, 0, 0, 0]],
          [- 5 / 4, - 5 / 4], [False, False], InfoRunning (700 / 9), [(1, 2), (3, 2)])
   \<and> reward_shaped (demo_env\<lparr>step_count := 2\<rparr>) (penalty_invalid_move demo_env) = - 1 / 4"
  using demo_tick_walls by (simp add: reward_shaped_def demo_env_def power2_eq_square)

section \<open>Observations\<close>


lemma replicate_3_plus: "replicate (3 + m) x = x # x # x # replicate m x"
  by (simp add: numeral_3_eq_3)

lemma concat_zero_triples: "concat (replicate n [0, 0, 0 :: int]) = replicate (3 * n) 0"
  by (induction n) (simp_all add: replicate_3_plus)

lemma euclid_dist_mono_iff:
  "euclid_dist p q \<le> euclid_dist p' q' \<longleftrightarrow>
     (fst p - fst q)\<^sup>2 + (snd p - snd q)\<^sup>2 \<le> (fst p' - fst q')\<^sup>2 + (snd p' - snd q')\<^sup>2"
  unfolding euclid_dist_def by (simp only: real_sqrt_le_iff of_int_le_iff)



lemma goals_in_fov_demo:
  "goals_in_fov demo_goals (demo_agent (1, 3) (1, 2)) = [1, 4, 3]"
  by (simp add: obs_defs euclid_dist_mono_iff demo_goals_def demo_defs)

lemma obs_demo_goals:
  "get_obs_vec demo_goals (demo_agent (1, 3) (1, 2)) = [1, 2, 2, 2, 0, 1, 1, 0, 2, 1, 0]"
  by (simp add: obs_defs euclid_dist_mono_iff demo_goals_def demo_defs)

text \<open>
  C2, as stated, fails for a collected goal: in the episode after the goal at (2, 2) was
  collected, the agent at (1, 2) is at distance 1 from it, within \<open>max_edge_dist = 1\<close>, and
  the observation carries no triple for it.
\<close>

theorem collected_goal_not_observed:
  "euclid_dist (cur_pos (demo_agent (1, 3) (1, 2))) (g_pos (goals demo_collected ! 0))
     \<le> max_edge_dist demo_collected
   \<and> collected (goals demo_collected ! 0)
   \<and> fst (get_obs demo_collected (demo_agent (1, 3) (1, 2))) = [1, 2, 0, 0, 0, 0, 0, 0, 0, 0, 0]"
  by (simp add: obs_defs demo_collected_def demo_defs)


lemma goal_triple_uncollected:
  "\<not> collected g \<Longrightarrow> goal_triple g = [fst (g_pos g), snd (g_pos g), 0]"
  by (simp add: goal_triple_def)

lemma goals_in_fov_set:
  "set (goals_in_fov e a) \<subseteq> {k. k < length (goals e) \<and> in_fov e a k}"
proof -
  have "set (goals_in_fov e a) \<subseteq> set (sort_key (goal_dist e a) (filter (in_fov e a) [0..<length (goals e)]))"
    unfolding goals_in_fov_def by (rule set_take_subset)
  then show ?thesis by auto
qed

lemma goals_in_fov_distinct: "distinct (goals_in_fov e a)"
  by (simp add: goals_in_fov_def distinct_take)

lemma goals_in_fov_sorted: "sorted (map (goal_dist e a) (goals_in_fov e a))"
proof -
  have "sorted (take 3 (map (goal_dist e a)
          (sort_key (goal_dist e a) (filter (in_fov e a) [0..<length (goals e)]))))"
    by (rule sorted_wrt_take) simp
  then show ?thesis by (simp add: goals_in_fov_def take_map)
qed

lemma goals_in_fov_count:
  "length (goals_in_fov e a) = min 3 (card {k. k < length (goals e) \<and> in_fov e a k})"
proof -
  have "{k. k < length (goals e) \<and> in_fov e a k} = set (filter (in_fov e a) [0..<length (goals e)])"
    by auto
  moreover have "card (set (filter (in_fov e a) [0..<length (goals e)]))
      = length (filter (in_fov e a) [0..<length (goals e)])"
    by (rule distinct_card) simp
  ultimately have "card {k. k < length (goals e) \<and> in_fov e a k}
      = length (filter (in_fov e a) [0..<length (goals e)])"
    by (simp only:)
  then show ?thesis by (simp add: goals_in_fov_def min.commute)
qed

lemma goals_in_fov_nearest:
  assumes "k < length (goals e)" and "in_fov e a k" and "k \<notin> set (goals_in_fov e a)"
    and "j \<in> set (goals_in_fov e a)"
  shows "goal_dist e a j \<le> goal_dist e a k"
proof -
  let ?srt = "sort_key (goal_dist e a) (filter (in_fov e a) [0..<length (goals e)])"
  have "k \<in> set ?srt" using assms(1,2) by simp
  then have "k \<in> set (take 3 ?srt) \<union> set (drop 3 ?srt)"
    by (simp only: set_append [symmetric] append_take_drop_id)
  then have k: "k \<in> set (drop 3 ?srt)"
    using assms(3) by (simp add: goals_in_fov_def)
  have j: "j \<in> set (take 3 ?srt)"
    using assms(4) by (simp add: goals_in_fov_def)
  have "sorted (map (goal_dist e a) (take 3 ?srt @ drop 3 ?srt))"
    by (simp only: append_take_drop_id) simp
  then have "\<forall>x\<in>set (take 3 ?srt). \<forall>y\<in>set (drop 3 ?srt). goal_dist e a x \<le> goal_dist e a y"
    by (simp only: map_append sorted_append) auto
  then show ?thesis using j k by blast
qed

text \<open>
  C2, amended: the observation builder considers the goals that are not yet collected: it
  keeps exactly those with Euclidean distance at most \<open>max_edge_dist\<close>, sorted ascending by
  distance, selects the 3 nearest of them (all of them when there are fewer), and appends
  (x, y, 0) for each selected goal.
\<close>

theorem obs_nearest_uncollected:
  "distinct (goals_in_fov e a)
   \<and> (\<forall>k\<in>set (goals_in_fov e a).
         k < length (goals e) \<and> \<not> collected (goals e ! k)
         \<and> euclid_dist (cur_pos a) (g_pos (goals e ! k)) \<le> max_edge_dist e)
   \<and> sorted (map (\<lambda>k. euclid_dist (cur_pos a) (g_pos (goals e ! k))) (goals_in_fov e a))
   \<and> length (goals_in_fov e a)
       = min 3 (card {k. k < length (goals e) \<and> \<not> collected (goals e ! k)
                        \<and> euclid_dist (cur_pos a) (g_pos (goals e ! k)) \<le> max_edge_dist e})
   \<and> (\<forall>k j. k < length (goals e) \<and> \<not> collected (goals e ! k)
           \<and> euclid_dist (cur_pos a) (g_pos (goals e ! k)) \<le> max_edge_dist e
           \<and> k \<notin> set (goals_in_fov e a) \<and> j \<in> set (goals_in_fov e a)
         \<longrightarrow> euclid_dist (cur_pos a) (g_pos (goals e ! j))
               \<le> euclid_dist (cur_pos a) (g_pos (goals e ! k)))
   \<and> fst (get_obs e a)
       = [fst (cur_pos a), snd (cur_pos a)]
         @ concat (map (\<lambda>k. [fst (g_pos (goals e ! k)), snd (g_pos (goals e ! k)), 0])
                       (goals_in_fov e a))
         @ replicate (3 * (3 - length (goals_in_fov e a))) 0"
proof -
  have fov: "in_fov e a k \<longleftrightarrow> \<not> collected (goals e ! k)
      \<and> euclid_dist (cur_pos a) (g_pos (goals e ! k)) \<le> max_edge_dist e" for k
    by (auto simp: in_fov_def goal_dist_def)
  have gd: "goal_dist e a = (\<lambda>k. euclid_dist (cur_pos a) (g_pos (goals e ! k)))"
    by (rule ext) (simp add: goal_dist_def)
  have 1: "distinct (goals_in_fov e a)" by (rule goals_in_fov_distinct)
  have 2: "\<forall>k\<in>set (goals_in_fov e a).
         k < length (goals e) \<and> \<not> collected (goals e ! k)
         \<and> euclid_dist (cur_pos a) (g_pos (goals e ! k)) \<le> max_edge_dist e"
    using goals_in_fov_set [of e a] by (auto simp: fov)
  have 3: "sorted (map (\<lambda>k. euclid_dist (cur_pos a) (g_pos (goals e ! k))) (goals_in_fov e a))"
    using goals_in_fov_sorted [of e a] by (simp only: gd)
  have 4: "length (goals_in_fov e a)
       = min 3 (card {k. k < length (goals e) \<and> \<not> collected (goals e ! k)
                        \<and> euclid_dist (cur_pos a) (g_pos (goals e ! k)) \<le> max_edge_dist e})"
    using goals_in_fov_count [of e a] by (simp only: fov)
  have 5: "\<forall>k j. k < length (goals e) \<and> \<not> collected (goals e ! k)
           \<and> euclid_dist (cur_pos a) (g_pos (goals e ! k)) \<le> max_edge_dist e
           \<and> k \<notin> set (goals_in_fov e a) \<and> j \<in> set (goals_in_fov e a)
         \<longrightarrow> euclid_dist (cur_pos a) (g_pos (goals e ! j))
               \<le> euclid_dist (cur_pos a) (g_pos (goals e ! k))"
    using goals_in_fov_nearest [of _ e a] by (simp add: fov goal_dist_def)
  have "map (\<lambda>k. goal_triple (goals e ! k)) (goals_in_fov e a)
      = map (\<lambda>k. [fst (g_pos (goals e ! k)), snd (g_pos (goals e ! k)), 0]) (goals_in_fov e a)"
    using 2 by (simp add: goal_triple_uncollected)
  then have "concat (map (\<lambda>k. goal_triple (goals e ! k)) (goals_in_fov e a))
      = concat (map (\<lambda>k. [fst (g_pos (goals e ! k)), snd (g_pos (goals e ! k)), 0])
                    (goals_in_fov e a))"
    by (simp only:)
  then have 6: "fst (get_obs e a)
       = [fst (cur_pos a), snd (cur_pos a)]
         @ concat (map (\<lambda>k. [fst (g_pos (goals e ! k)), snd (g_pos (goals e ! k)), 0])
                       (goals_in_fov e a))
         @ replicate (3 * (3 - length (goals_in_fov e a))) 0"
    by (simp add: get_obs_def get_obs_vec_def concat_zero_triples)
  from 1 2 3 4 5 6 show ?thesis by (intro conjI)
qed



theorem obs_nearest_uncollected_witness:
  "goals_in_fov demo_goals (demo_agent (1, 3) (1, 2)) = [1, 4, 3]
   \<and> (0::nat) < length (goals demo_goals) \<and> \<not> collected (goals demo_goals ! 0)
   \<and> euclid_dist (1, 2) (3, 3) \<le> max_edge_dist demo_goals
   \<and> euclid_dist (1, 2) (2, 1) \<le> euclid_dist (1, 2) (3, 3)
   \<and> fst (get_obs demo_goals (demo_agent (1, 3) (1, 2))) = [1, 2, 2, 2, 0, 1, 1, 0, 2, 1, 0]"
proof -
  let ?a = "demo_agent (1, 3) (1, 2)"
  note t = obs_nearest_uncollected [of demo_goals ?a]
  have sel: "goals_in_fov demo_goals ?a = [1, 4, 3]" by (rule goals_in_fov_demo)
  have h: "(0::nat) < length (goals demo_goals) \<and> \<not> collected (goals demo_goals ! 0)
      \<and> euclid_dist (cur_pos ?a) (g_pos (goals demo_goals ! 0)) \<le> max_edge_dist demo_goals
      \<and> 0 \<notin> set (goals_in_fov demo_goals ?a) \<and> 3 \<in> set (goals_in_fov demo_goals ?a)"
    by (simp add: sel) (simp add: demo_goals_def demo_defs euclid_dist_le_iff)
  from t have "euclid_dist (cur_pos ?a) (g_pos (goals demo_goals ! 3))
      \<le> euclid_dist (cur_pos ?a) (g_pos (goals demo_goals ! 0))"
    using h by blast
  moreover from t have "fst (get_obs demo_goals ?a)
       = [fst (cur_pos ?a), snd (cur_pos ?a)]
         @ concat (map (\<lambda>k. [fst (g_pos (goals demo_goals ! k)), snd (g_pos (goals demo_goals ! k)), 0])
                       (goals_in_fov demo_goals ?a))
         @ replicate (3 * (3 - length (goals_in_fov demo_goals ?a))) 0"
    by blast
  ultimately show ?thesis
    using h by (simp add: sel) (simp add: demo_goals_def demo_defs)
qed


section \<open>Obstacles\<close>








section \<open>Coverage\<close>

lemma in_matrix_cong: "map length s' = map length s \<Longrightarrow> in_matrix s' x y = in_matrix s x y"
proof -
  assume a: "map length s' = map length s"
  then have l: "length s' = length s" by (rule map_eq_imp_length_eq)
  have "x < length s \<Longrightarrow> length (s' ! x) = length (s ! x)"
    using a l by (metis nth_map)
  then show ?thesis using l by (auto simp: in_matrix_def)
qed

lemma map_length_mark: "map length (s[i := (s ! i)[j := True]]) = map length s"
proof (cases "i < length s")
  case True
  then show ?thesis by (simp add: map_update list_update_same_conv)
next
  case False
  then have "length s \<le> i" by simp
  then show ?thesis by (simp only: list_update_beyond)
qed

lemma seen_at_mark:
  "seen_at (s[i := (s ! i)[j := True]]) x y \<longleftrightarrow> seen_at s x y \<or> (x = i \<and> y = j \<and> in_matrix s i j)"
proof (cases "x < length s")
  case False
  then show ?thesis by (auto simp: seen_at_def in_matrix_def)
next
  case True
  show ?thesis
  proof (cases "x = i")
    case False
    then show ?thesis using True by (simp add: seen_at_def)
  next
    case xi: True
    show ?thesis
    proof (cases "y = j")
      case True
      then show ?thesis using xi \<open>x < length s\<close> by (auto simp: seen_at_def in_matrix_def)
    next
      case False
      then show ?thesis using xi \<open>x < length s\<close> by (auto simp: seen_at_def)
    qed
  qed
qed

lemma mark_cell_eq:
  "mark_cell m i j as s =
     (if list_ex (\<lambda>a. euclid_dist (int i, int j) (cur_pos a) \<le> m) as
      then s[i - 1 := (s ! (i - 1))[j - 1 := True]] else s)"
  by (induction as) simp_all

lemma mark_cell_length: "map length (mark_cell m i j as s) = map length s"
  by (simp add: mark_cell_eq map_length_mark)

lemma mark_cell_seen:
  "seen_at (mark_cell m i j as s) x y \<longleftrightarrow>
     seen_at s x y \<or> (x = i - 1 \<and> y = j - 1 \<and> in_matrix s (i - 1) (j - 1)
        \<and> list_ex (\<lambda>a. euclid_dist (int i, int j) (cur_pos a) \<le> m) as)"
  by (simp add: mark_cell_eq seen_at_mark)

lemma fold_row:
  "map length (fold (\<lambda>j s1. mark_cell m i j as s1) js s) = map length s
   \<and> (seen_at (fold (\<lambda>j s1. mark_cell m i j as s1) js s) x y \<longleftrightarrow>
        seen_at s x y \<or> (x = i - 1 \<and> in_matrix s x y
          \<and> (\<exists>j\<in>set js. y = j - 1 \<and> list_ex (\<lambda>a. euclid_dist (int i, int j) (cur_pos a) \<le> m) as)))"
proof (induction js arbitrary: s)
  case Nil
  then show ?case by simp
next
  case (Cons j js)
  let ?s1 = "mark_cell m i j as s"
  have l1: "map length ?s1 = map length s" by (rule mark_cell_length)
  have im: "in_matrix ?s1 x y = in_matrix s x y" by (rule in_matrix_cong [OF l1])
  from Cons.IH [of ?s1] l1 im mark_cell_seen [of m i j as s x y]
  show ?case by auto
qed

lemma fold_matrix:
  "map length (fold (\<lambda>i s0. fold (\<lambda>j s1. mark_cell m i j as s1) js s0) is s) = map length s
   \<and> (seen_at (fold (\<lambda>i s0. fold (\<lambda>j s1. mark_cell m i j as s1) js s0) is s) x y \<longleftrightarrow>
        seen_at s x y \<or> (in_matrix s x y
          \<and> (\<exists>i\<in>set is. x = i - 1
               \<and> (\<exists>j\<in>set js. y = j - 1 \<and> list_ex (\<lambda>a. euclid_dist (int i, int j) (cur_pos a) \<le> m) as))))"
proof (induction "is" arbitrary: s)
  case Nil
  then show ?case by simp
next
  case (Cons i "is")
  let ?s1 = "fold (\<lambda>j s1. mark_cell m i j as s1) js s"
  have l1: "map length ?s1 = map length s" using fold_row [of m i as js s] by simp
  have im: "in_matrix ?s1 x y = in_matrix s x y" by (rule in_matrix_cong [OF l1])
  from Cons.IH [of ?s1] l1 im fold_row [of m i as js s x y]
  show ?case by auto
qed


lemma seen_wf_in_matrix:
  "seen_wf e \<Longrightarrow> in_matrix (seen_cells e) x y \<longleftrightarrow> x < nat (width e - 2) \<and> y < nat (height e - 2)"
proof -
  assume "seen_wf e"
  then have m: "map length (seen_cells e) = replicate (nat (width e - 2)) (nat (height e - 2))"
    by (simp add: seen_wf_def)
  then have "length (map length (seen_cells e)) = nat (width e - 2)" by simp
  then have l: "length (seen_cells e) = nat (width e - 2)" by simp
  have "x < nat (width e - 2) \<Longrightarrow> length (seen_cells e ! x) = nat (height e - 2)"
  proof -
    assume x: "x < nat (width e - 2)"
    then have "map length (seen_cells e) ! x = length (seen_cells e ! x)"
      using l by simp
    then show ?thesis using m x by simp
  qed
  then show ?thesis using l by (auto simp: in_matrix_def)
qed

lemma interior_index:
  "(\<exists>i\<in>set [1..<nat (w - 1)]. x = i - 1 \<and> (\<exists>j\<in>set [1..<nat (h - 1)]. y = j - 1 \<and> P i j))
   \<longleftrightarrow> x < nat (w - 2) \<and> y < nat (h - 2) \<and> P (Suc x) (Suc y)"
proof
  assume "\<exists>i\<in>set [1..<nat (w - 1)]. x = i - 1 \<and> (\<exists>j\<in>set [1..<nat (h - 1)]. y = j - 1 \<and> P i j)"
  then obtain i j where i: "1 \<le> i" "i < nat (w - 1)" "x = i - 1"
    and j: "1 \<le> j" "j < nat (h - 1)" "y = j - 1" and p: "P i j"
    by auto
  from i have "i = Suc x" and "x < nat (w - 2)" by linarith+
  moreover from j have "j = Suc y" and "y < nat (h - 2)" by linarith+
  ultimately show "x < nat (w - 2) \<and> y < nat (h - 2) \<and> P (Suc x) (Suc y)"
    using p by simp
next
  assume a: "x < nat (w - 2) \<and> y < nat (h - 2) \<and> P (Suc x) (Suc y)"
  then have "Suc x \<in> set [1..<nat (w - 1)]" and "Suc y \<in> set [1..<nat (h - 1)]"
    by auto
  then show "\<exists>i\<in>set [1..<nat (w - 1)]. x = i - 1 \<and> (\<exists>j\<in>set [1..<nat (h - 1)]. y = j - 1 \<and> P i j)"
    using a by (intro bexI [of _ "Suc x"] conjI bexI [of _ "Suc y"]) simp_all
qed

lemma update_seen_cells_length:
  "map length (seen_cells (update_seen_cells e)) = map length (seen_cells e)"
  using fold_matrix [of "max_edge_dist e" "agents e" "[1..<nat (height e - 1)]"
      "[1..<nat (width e - 1)]" "seen_cells e"]
  by (simp add: update_seen_cells_def)

lemma update_seen_cells_seen_at:
  "seen_at (seen_cells (update_seen_cells e)) x y \<longleftrightarrow>
     seen_at (seen_cells e) x y
     \<or> (in_matrix (seen_cells e) x y \<and> x < nat (width e - 2) \<and> y < nat (height e - 2)
        \<and> in_view e (Suc x) (Suc y))"
proof -
  have "seen_at (seen_cells (update_seen_cells e)) x y \<longleftrightarrow>
     seen_at (seen_cells e) x y
     \<or> (in_matrix (seen_cells e) x y
        \<and> (\<exists>i\<in>set [1..<nat (width e - 1)]. x = i - 1
             \<and> (\<exists>j\<in>set [1..<nat (height e - 1)]. y = j - 1 \<and> in_view e i j)))"
    using fold_matrix [of "max_edge_dist e" "agents e" "[1..<nat (height e - 1)]"
      "[1..<nat (width e - 1)]" "seen_cells e" x y]
    by (simp add: update_seen_cells_def in_view_def)
  then show ?thesis by (simp only: interior_index)
qed

lemma update_seen_cells_wf: "seen_wf e \<Longrightarrow> seen_wf (update_seen_cells e)"
  using update_seen_cells_length [of e]
  by (simp add: seen_wf_def) (simp add: update_seen_cells_def)

lemma update_seen_cells_nth:
  assumes "seen_wf e" and "x < nat (width e - 2)" and "y < nat (height e - 2)"
  shows "seen_cells (update_seen_cells e) ! x ! y \<longleftrightarrow>
     seen_cells e ! x ! y \<or> in_view e (Suc x) (Suc y)"
proof -
  have im: "in_matrix (seen_cells e) x y"
    using assms by (simp add: seen_wf_in_matrix)
  then have "in_matrix (seen_cells (update_seen_cells e)) x y"
    using in_matrix_cong [OF update_seen_cells_length] by simp
  then have "seen_at (seen_cells (update_seen_cells e)) x y = seen_cells (update_seen_cells e) ! x ! y"
    by (simp add: seen_at_def in_matrix_def)
  moreover have "seen_at (seen_cells e) x y = seen_cells e ! x ! y"
    using im by (simp add: seen_at_def in_matrix_def)
  ultimately show ?thesis
    using update_seen_cells_seen_at [of e x y] im assms(2,3) by simp
qed

lemma count_row_mono:
  "list_all2 (\<lambda>b b'. b \<longrightarrow> b') r r' \<Longrightarrow> length (filter (\<lambda>b. b) r) \<le> length (filter (\<lambda>b. b) r')"
  by (induction rule: list_all2_induct) auto

lemma count_seen_mono:
  "list_all2 (list_all2 (\<lambda>b b'. b \<longrightarrow> b')) s s' \<Longrightarrow> count_seen s \<le> count_seen s'"
proof (induction rule: list_all2_induct)
  case Nil
  then show ?case by (simp add: count_seen_def)
next
  case (Cons r s r' s')
  then show ?case using count_row_mono [of r r'] by (simp add: count_seen_def)
qed

lemma update_seen_cells_grows:
  "list_all2 (list_all2 (\<lambda>b b'. b \<longrightarrow> b')) (seen_cells e) (seen_cells (update_seen_cells e))"
proof -
  let ?s = "seen_cells e" and ?s' = "seen_cells (update_seen_cells e)"
  have ml: "map length ?s' = map length ?s" by (rule update_seen_cells_length)
  then have l: "length ?s' = length ?s" by (rule map_eq_imp_length_eq)
  have row: "list_all2 (\<lambda>b b'. b \<longrightarrow> b') (?s ! x) (?s' ! x)" if x: "x < length ?s" for x
  proof -
    have lr: "length (?s' ! x) = length (?s ! x)"
      using ml l x by (metis nth_map)
    have "?s ! x ! y \<longrightarrow> ?s' ! x ! y" if y: "y < length (?s ! x)" for y
    proof
      assume "?s ! x ! y"
      then have "seen_at ?s x y" using x y by (simp add: seen_at_def)
      then have "seen_at ?s' x y" by (simp add: update_seen_cells_seen_at)
      then show "?s' ! x ! y" by (simp add: seen_at_def)
    qed
    then show ?thesis using lr by (simp add: list_all2_conv_all_nth)
  qed
  show ?thesis using l row by (simp add: list_all2_conv_all_nth)
qed

lemma in_view_obs:
  "in_view (e\<lparr>agents := map (\<lambda>a. snd (get_obs e a)) (agents e)\<rparr>) i j = in_view e i j"
  by (simp add: in_view_def list_ex_iff get_obs_def)

lemma in_view_update: "in_view (update_seen_cells e) i j = in_view e i j"
  by (simp add: in_view_def update_seen_cells_def)

lemma step_seen_cells:
  assumes "step co e actions = Inr (obs, rewards, dones, tick_info, e')"
  shows "\<exists>e1. same_config (e\<lparr>step_count := step_count e + 1\<rparr>) e1
     \<and> e' = (update_seen_cells e1)\<lparr>agents :=
           map (\<lambda>a. snd (get_obs (update_seen_cells e1) a)) (agents (update_seen_cells e1))\<rparr>"
proof -
  let ?e0 = "e\<lparr>step_count := step_count e + 1\<rparr>"
  let ?n = "length (agents e)"
  from assms obtain e1 r1 d1 where
    l: "move_loop co 0 actions (?e0, replicate ?n 0, replicate ?n False) = Inr (e1, r1, d1)"
    by (auto simp: step_def Let_def split: sum.splits)
  from assms l have "e' = (update_seen_cells e1)\<lparr>agents :=
       map (\<lambda>a. snd (get_obs (update_seen_cells e1) a)) (agents (update_seen_cells e1))\<rparr>"
    by (auto simp: step_def Let_def split: sum.splits)
  with move_loop_config [OF l] show ?thesis by blast
qed

lemma init_coverage_wf:
  "init_coverage (width e) (height e) = Inr (total_cells e, seen_cells e) \<Longrightarrow> seen_wf e"
proof -
  assume a: "init_coverage (width e) (height e) = Inr (total_cells e, seen_cells e)"
  then have t: "total_cells e = (width e - 2) * (height e - 2)"
    and s: "seen_cells e = replicate (nat (width e - 2)) (replicate (nat (height e - 2)) False)"
    by (simp_all add: init_coverage_def split: if_splits)
  have "map length (replicate (nat (width e - 2)) (replicate (nat (height e - 2)) False))
      = replicate (nat (width e - 2)) (nat (height e - 2))"
    by simp
  then show ?thesis using t s by (simp add: seen_wf_def)
qed

lemma reset_coverage_wf: "seen_wf e \<Longrightarrow> seen_wf (reset_coverage e)"
  by (simp add: seen_wf_def reset_coverage_def comp_def)

text \<open>
  C9: across a tick the coverage matrix keeps its shape, one entry per interior cell, and
  only grows: an entry is set after the tick exactly when it was set before or its cell is
  within \<open>max_edge_dist\<close> of an agent, so no seen cell reverts. The seen-percentage is the
  number of set entries over the number of interior cells times 100, and does not
  decrease. (The grid has an interior: width and height exceed 2.)
\<close>

theorem coverage_monotone:
  assumes "step co e actions = Inr (obs, rewards, dones, tick_info, e')"
    and "seen_wf e" and "2 < width e" and "2 < height e"
  shows "seen_wf e' \<and> width e' = width e \<and> height e' = height e
    \<and> (\<forall>x y. x < nat (width e - 2) \<and> y < nat (height e - 2) \<longrightarrow>
          (seen_cells e' ! x ! y \<longleftrightarrow> seen_cells e ! x ! y \<or> in_view e' (Suc x) (Suc y)))
    \<and> (\<forall>x y. x < nat (width e - 2) \<and> y < nat (height e - 2) \<and> seen_cells e ! x ! y
          \<longrightarrow> seen_cells e' ! x ! y)
    \<and> calculate_seen_percentage e'
        = real (count_seen (seen_cells e')) / real_of_int ((width e - 2) * (height e - 2)) * 100
    \<and> calculate_seen_percentage e \<le> calculate_seen_percentage e'"
proof -
  from step_seen_cells [OF assms(1)] obtain e1 where
    c: "same_config (e\<lparr>step_count := step_count e + 1\<rparr>) e1"
    and e': "e' = (update_seen_cells e1)\<lparr>agents :=
           map (\<lambda>a. snd (get_obs (update_seen_cells e1) a)) (agents (update_seen_cells e1))\<rparr>"
    by blast
  from c have w: "width e1 = width e" and h: "height e1 = height e"
    and t: "total_cells e1 = total_cells e" and s: "seen_cells e1 = seen_cells e"
    by (simp_all add: same_config_def)
  have wf1: "seen_wf e1" using assms(2) by (simp add: seen_wf_def w h t s)
  have sc: "seen_cells e' = seen_cells (update_seen_cells e1)" by (simp add: e')
  have w': "width e' = width e" and h': "height e' = height e"
    and t': "total_cells e' = total_cells e"
    by (simp_all add: e' update_seen_cells_def w h t)
  have wf': "seen_wf e'"
    using update_seen_cells_wf [OF wf1]
    by (simp add: seen_wf_def sc w' h' t') (simp add: update_seen_cells_def w h t)
  have iv: "in_view e' i j = in_view e1 i j" for i j
    by (simp add: e' in_view_obs in_view_update)
  have eq: "seen_cells e' ! x ! y \<longleftrightarrow> seen_cells e ! x ! y \<or> in_view e' (Suc x) (Suc y)"
    if "x < nat (width e - 2)" and "y < nat (height e - 2)" for x y
    using update_seen_cells_nth [OF wf1, of x y] that by (simp add: sc iv w h s)
  have cnt: "count_seen (seen_cells e) \<le> count_seen (seen_cells e')"
    using count_seen_mono [OF update_seen_cells_grows [of e1]] by (simp add: sc s)
  have tc: "total_cells e = (width e - 2) * (height e - 2)"
    using assms(2) by (simp add: seen_wf_def)
  have pm: "calculate_seen_percentage e \<le> calculate_seen_percentage e'"
  proof -
    have "real (count_seen (seen_cells e)) \<le> real (count_seen (seen_cells e'))"
      using cnt by simp
    moreover have "0 < (width e - 2) * (height e - 2)"
      using assms(3,4) by simp
    then have "0 \<le> real_of_int (total_cells e)"
      by (simp only: tc of_int_0_le_iff)
    ultimately have "real (count_seen (seen_cells e)) / real_of_int (total_cells e)
        \<le> real (count_seen (seen_cells e')) / real_of_int (total_cells e)"
      by (rule divide_right_mono)
    then have "real (count_seen (seen_cells e)) / real_of_int (total_cells e) * 100
        \<le> real (count_seen (seen_cells e')) / real_of_int (total_cells e) * 100"
      by (rule mult_right_mono) simp
    then show ?thesis
      by (simp only: calculate_seen_percentage_def t')
  qed
  have pf: "calculate_seen_percentage e'
        = real (count_seen (seen_cells e')) / real_of_int ((width e - 2) * (height e - 2)) * 100"
    by (simp only: calculate_seen_percentage_def t' tc)
  from wf' w' h' eq pm pf show ?thesis by simp
qed

lemma demo_env_wf: "seen_wf demo_env"
  by (simp add: seen_wf_def demo_env_def eval_nat_numeral)

theorem coverage_monotone_witness:
  "\<exists>obs rewards dones tick_info e'.
     step can_overlap demo_env [up, up] = Inr (obs, rewards, dones, tick_info, e')
     \<and> seen_wf demo_env \<and> 2 < width demo_env \<and> 2 < height demo_env
     \<and> (1::nat) < nat (width demo_env - 2) \<and> (0::nat) < nat (height demo_env - 2)
     \<and> \<not> seen_cells demo_env ! 1 ! 0 \<and> in_view e' 2 1 \<and> seen_cells e' ! 1 ! 0
     \<and> seen_cells demo_env ! 0 ! 0 \<and> seen_cells e' ! 0 ! 0
     \<and> calculate_seen_percentage demo_env = 700 / 9
     \<and> calculate_seen_percentage demo_env \<le> calculate_seen_percentage e'"
proof -
  obtain obs rewards dones tick_info e' where
    s: "step can_overlap demo_env [up, up] = Inr (obs, rewards, dones, tick_info, e')"
    using demo_tick_up
    by (cases "step can_overlap demo_env [up, up]") (auto simp: tick_result_def)
  have pos: "map cur_pos (agents e') = [(1, 2), (3, 1)]"
    using demo_tick_up s by (simp add: tick_result_def)
  have med: "max_edge_dist e' = 1"
    using step_seen_cells [OF s]
    by (auto simp: same_config_def update_seen_cells_def demo_env_def)
  have size: "2 < width demo_env" "2 < height demo_env"
    "(1::nat) < nat (width demo_env - 2)" "(0::nat) < nat (height demo_env - 2)"
    by (simp_all add: demo_env_def)
  note t = coverage_monotone [OF s demo_env_wf size(1,2)]
  have old: "\<not> seen_cells demo_env ! 1 ! 0" "seen_cells demo_env ! 0 ! 0"
    by (simp_all add: demo_env_def)
  have "list_ex (\<lambda>p. euclid_dist (int 2, int 1) p \<le> max_edge_dist e') (map cur_pos (agents e'))"
    by (simp only: pos med) (simp add: euclid_dist_le_iff power2_eq_square)
  then have v: "in_view e' 2 1"
    by (simp add: in_view_def list_ex_iff)
  have new: "seen_cells e' ! 1 ! 0"
    using t size(3,4) v by (simp add: numeral_2_eq_2)
  have keep: "seen_cells e' ! 0 ! 0"
    using t size(3,4) old(2) by simp
  have p: "calculate_seen_percentage demo_env = 700 / 9"
    by (simp add: calculate_seen_percentage_def count_seen_def demo_env_def)
  from t have "calculate_seen_percentage demo_env \<le> calculate_seen_percentage e'" by simp
  with s demo_env_wf size old v new keep p show ?thesis by blast
qed


section \<open>Placement\<close>

lemma place_object_occupied:
  assumes "place_object rnd ob e n = Some y"
  shows "width e - 2 \<le> 1 \<or> height e - 2 \<le> 1
     \<or> (\<exists>k\<ge>n. \<forall>c. grid_get (grid e) (rnd k) \<noteq> Inr (Some c))"
proof (rule place_object.raw_induct [where rnd = rnd and ob = ob and e = e and n = n and y = y
      and P = "\<lambda>rnd ob e n y. width e - 2 \<le> 1 \<or> height e - 2 \<le> 1
     \<or> (\<exists>k\<ge>n. \<forall>c. grid_get (grid e) (rnd k) \<noteq> Inr (Some c))"], goal_cases)
  case (1 f rnd ob e n y)
  note IH = 1(1) and eq = 1(2)
  show ?case
  proof (cases "width e - 2 \<le> 1 \<or> height e - 2 \<le> 1")
    case True
    then show ?thesis by blast
  next
    case small: False
    show ?thesis
    proof (cases "\<exists>c. grid_get (grid e) (rnd n) = Inr (Some c)")
      case True
      then obtain c where c: "grid_get (grid e) (rnd n) = Inr (Some c)" by blast
      have "f rnd ob e (Suc n) = Some y"
        using eq small by (simp add: c)
      from IH [OF this] small obtain k where k: "Suc n \<le> k"
        "\<forall>c. grid_get (grid e) (rnd k) \<noteq> Inr (Some c)"
        by blast
      from k(1) have "n \<le> k" by simp
      with k(2) show ?thesis by blast
    next
      case False
      then have "\<forall>c. grid_get (grid e) (rnd n) \<noteq> Inr (Some c)" by simp
      moreover have "n \<le> n" by simp
      ultimately show ?thesis by blast
    qed
  qed
next
  case 2
  show ?case by (rule assms)
qed

lemma place_object_never:
  assumes "1 < width e - 2" and "1 < height e - 2"
    and "\<forall>k\<ge>n. \<exists>c. grid_get (grid e) (rnd k) = Inr (Some c)"
  shows "place_object rnd ob e n = None"
proof (cases "place_object rnd ob e n")
  case None
  then show ?thesis .
next
  case (Some y)
  from place_object_occupied [OF Some] have
    "width e - 2 \<le> 1 \<or> height e - 2 \<le> 1
     \<or> (\<exists>k\<ge>n. \<forall>c. grid_get (grid e) (rnd k) \<noteq> Inr (Some c))" .
  moreover have "\<not> width e - 2 \<le> 1" and "\<not> height e - 2 \<le> 1"
    using assms(1,2) by simp_all
  ultimately obtain k where "n \<le> k" and "\<forall>c. grid_get (grid e) (rnd k) \<noteq> Inr (Some c)"
    by blast
  with assms(3) show ?thesis by blast
qed

lemma place_object_skip:
  assumes "1 < width e - 2" and "1 < height e - 2"
    and "\<forall>k<m. \<exists>c. grid_get (grid e) (rnd (n + k)) = Inr (Some c)"
  shows "place_object rnd ob e n = place_object rnd ob e (n + m)"
  using assms(3)
proof (induction m arbitrary: n)
  case 0
  then show ?case by simp
next
  case (Suc m)
  from Suc.prems have "\<exists>c. grid_get (grid e) (rnd (n + 0)) = Inr (Some c)" by blast
  then obtain c where c: "grid_get (grid e) (rnd n) = Inr (Some c)" by auto
  have "\<forall>k<m. \<exists>c. grid_get (grid e) (rnd (Suc n + k)) = Inr (Some c)"
  proof (intro allI impI)
    fix k assume "k < m"
    then have "Suc k < Suc m" by simp
    with Suc.prems have "\<exists>c. grid_get (grid e) (rnd (n + Suc k)) = Inr (Some c)" by blast
    then show "\<exists>c. grid_get (grid e) (rnd (Suc n + k)) = Inr (Some c)" by simp
  qed
  from Suc.IH [OF this] have ih: "place_object rnd ob e (Suc n) = place_object rnd ob e (Suc n + m)" .
  have "place_object rnd ob e n = place_object rnd ob e (Suc n)"
    using assms(1,2) c by (subst place_object.simps) simp
  with ih show ?case by simp
qed

lemma place_at_in_bounds:
  "in_bounds (grid e) p \<Longrightarrow>
     \<exists>e1. place_at e p ob = Inr e1
       \<and> content (grid e1) p = Some (case ob of NewGoal \<Rightarrow> Goal (length (goals e)) | NewObstacle \<Rightarrow> Obstacle)
       \<and> (\<forall>q. q \<noteq> p \<longrightarrow> content (grid e1) q = content (grid e) q)"
  by (cases ob) (simp_all add: place_at_def grid_set_def)

lemma full_env_occupied:
  "in_sample_range full_env p \<Longrightarrow> grid_get (grid full_env) p = Inr (Some Obstacle)"
  by (auto simp: in_sample_range_def full_env_def grid_get_def in_bounds_def demo_defs)

text \<open>
  C5, as stated, fails when the interior is full: with an obstacle on every interior cell
  the loop of \<open>_place_object\<close> rejects every draw and never returns. There is no bound
  on the draws and no PlacementError.
\<close>

theorem place_object_full_never_returns:
  "place_object (const_rnd (1, 1)) NewGoal full_env 0 = None"
proof -
  have "in_sample_range full_env (1, 1)"
    by (simp add: in_sample_range_def full_env_def demo_env_def)
  then have "\<forall>k\<ge>0. \<exists>c. grid_get (grid full_env) (const_rnd (1, 1) k) = Inr (Some c)"
    by (simp add: const_rnd_def full_env_occupied)
  moreover have "1 < width full_env - 2" and "1 < height full_env - 2"
    by (simp_all add: full_env_def demo_env_def)
  ultimately show ?thesis by (simp add: place_object_never)
qed


text \<open>
  C5, amended: on a grid whose sampled range is not empty, \<open>_place_object\<close> draws until a
  drawn cell has no static content and places the object there: if the first \<open>m\<close> draws
  hit occupied cells and the next one an empty cell, it returns after \<open>m + 1\<close> draws with
  the object on that cell. If every draw hits an occupied cell, as it must when the
  sampled range is full, it never returns; it raises no PlacementError.
\<close>

theorem place_object_rejection:
  assumes "1 < width e - 2" and "1 < height e - 2"
  shows "((\<forall>k<m. \<exists>c. grid_get (grid e) (rnd (n + k)) = Inr (Some c))
          \<and> grid_get (grid e) (rnd (n + m)) = Inr None
        \<longrightarrow> (\<exists>e1. place_at e (rnd (n + m)) ob = Inr e1
              \<and> content (grid e1) (rnd (n + m))
                  = Some (case ob of NewGoal \<Rightarrow> Goal (length (goals e)) | NewObstacle \<Rightarrow> Obstacle)
              \<and> place_object rnd ob e n = Some (Inr (e1, Suc (n + m)))))
     \<and> ((\<forall>k\<ge>n. \<exists>c. grid_get (grid e) (rnd k) = Inr (Some c))
        \<longrightarrow> place_object rnd ob e n = None)"
proof (intro conjI impI)
  assume a: "(\<forall>k<m. \<exists>c. grid_get (grid e) (rnd (n + k)) = Inr (Some c))
          \<and> grid_get (grid e) (rnd (n + m)) = Inr None"
  then have sk: "place_object rnd ob e n = place_object rnd ob e (n + m)"
    using place_object_skip [OF assms] by blast
  from a have g: "grid_get (grid e) (rnd (n + m)) = Inr None" by simp
  then have "in_bounds (grid e) (rnd (n + m))"
    by (simp add: grid_get_def split: if_splits)
  from place_at_in_bounds [OF this, of ob] obtain e1 where
    p: "place_at e (rnd (n + m)) ob = Inr e1"
    and c: "content (grid e1) (rnd (n + m))
        = Some (case ob of NewGoal \<Rightarrow> Goal (length (goals e)) | NewObstacle \<Rightarrow> Obstacle)"
    by blast
  have "place_object rnd ob e (n + m) = Some (Inr (e1, Suc (n + m)))"
    using assms g p by (subst place_object.simps) simp
  with sk p c show "\<exists>e1. place_at e (rnd (n + m)) ob = Inr e1
              \<and> content (grid e1) (rnd (n + m))
                  = Some (case ob of NewGoal \<Rightarrow> Goal (length (goals e)) | NewObstacle \<Rightarrow> Obstacle)
              \<and> place_object rnd ob e n = Some (Inr (e1, Suc (n + m)))"
    by simp
next
  assume "\<forall>k\<ge>n. \<exists>c. grid_get (grid e) (rnd k) = Inr (Some c)"
  with assms show "place_object rnd ob e n = None" by (rule place_object_never)
qed

theorem place_object_rejection_witness:
  "1 < width demo_env - 2 \<and> 1 < height demo_env - 2
   \<and> grid_get (grid demo_env) (demo_rnd 0) = Inr (Some (Goal 0))
   \<and> grid_get (grid demo_env) (demo_rnd 1) = Inr None
   \<and> (\<exists>e1. place_object demo_rnd NewObstacle demo_env 0 = Some (Inr (e1, 2))
          \<and> content (grid e1) (2, 1) = Some Obstacle \<and> obstacles e1 = [(1, 1), (2, 1)])
   \<and> place_object (const_rnd (2, 2)) NewObstacle demo_env 0 = None"
proof -
  have size: "1 < width demo_env - 2" "1 < height demo_env - 2"
    by (simp_all add: demo_env_def)
  have g0: "grid_get (grid demo_env) (demo_rnd 0) = Inr (Some (Goal 0))"
    by (simp add: demo_rnd_def grid_get_def in_bounds_def demo_defs)
  have g1: "grid_get (grid demo_env) (demo_rnd 1) = Inr None"
    by (simp add: demo_rnd_def grid_get_def in_bounds_def demo_defs)
  have occ: "\<forall>k<(1::nat). \<exists>c. grid_get (grid demo_env) (demo_rnd (0 + k)) = Inr (Some c)"
    using g0 by simp
  from place_object_rejection [OF size, of 1 demo_rnd 0 NewObstacle] occ g1
  obtain e1 where p: "place_at demo_env (demo_rnd 1) NewObstacle = Inr e1"
    and c: "content (grid e1) (demo_rnd 1) = Some Obstacle"
    and r: "place_object demo_rnd NewObstacle demo_env 0 = Some (Inr (e1, 2))"
    by auto
  from p have "obstacles e1 = [(1, 1), (2, 1)]"
    by (auto simp: place_at_def grid_set_def demo_rnd_def demo_env_def split: if_splits)
  with c r have first: "\<exists>e1. place_object demo_rnd NewObstacle demo_env 0 = Some (Inr (e1, 2))
          \<and> content (grid e1) (2, 1) = Some Obstacle \<and> obstacles e1 = [(1, 1), (2, 1)]"
    by (auto simp: demo_rnd_def)
  have "\<forall>k\<ge>0. \<exists>c. grid_get (grid demo_env) (const_rnd (2, 2) k) = Inr (Some c)"
    by (simp add: const_rnd_def grid_get_def in_bounds_def demo_defs)
  with place_object_rejection [OF size, of 0 "const_rnd (2, 2)" 0 NewObstacle]
  have "place_object (const_rnd (2, 2)) NewObstacle demo_env 0 = None"
    by blast
  with size g0 g1 first show ?thesis by blast
qed


end
